theory Spec2Isabelle
  imports Complex_Main "HOL-Library.AList" "HOL-Library.Sublist"
begin

section \<open>Python values and dictionaries\<close>

text \<open>
  The bot keeps its state in Python dictionaries whose values are again dictionaries.
  A dictionary is modelled as an association list in insertion order: \<open>map_of\<close> is the
  lookup, \<open>AList.update\<close> is item assignment (an existing key keeps its position, a new
  key goes to the end) and \<open>AList.delete\<close> removes a key. Python strings are HOL
  strings; the code only compares and concatenates them.
\<close>

datatype pyval =
    PNone
  | PBool bool
  | PInt int
  | PFloat real
  | PStr string
  | PList "pyval list"
  | PDict "(string \<times> pyval) list"

type_synonym pydict = "(string \<times> pyval) list"

datatype error =
    KeyError string
  | AttributeError
  | UnicodeDecodeError
  | PlaywrightError

section \<open>Extracted bets and their identifier\<close>

text \<open>
  \<open>_extract_bet_info\<close> always returns a dictionary with the same seven keys, each
  holding a string; a field that could not be read keeps the value \<open>N/A\<close>
  (\<open>Unknown\<close> for the sport).
\<close>

record bet_info =
  sport :: string
  details :: string
  match :: string
  market :: string
  odds_old :: string
  odds_new :: string
  timestamp :: string

definition info_dict :: "bet_info \<Rightarrow> pydict" where
  "info_dict i =
     [(''sport'', PStr (sport i)), (''details'', PStr (details i)),
      (''match'', PStr (match i)), (''market'', PStr (market i)),
      (''odds_old'', PStr (odds_old i)), (''odds_new'', PStr (odds_new i)),
      (''timestamp'', PStr (timestamp i))]"

text \<open>
  \<open>_generate_id\<close> joins three fields with \<open>|\<close> and returns the hexadecimal MD5 digest
  of the result. The digest is library code; it is the parameter \<open>md5\<close>.
\<close>

definition unique_str :: "bet_info \<Rightarrow> string" where
  "unique_str info = match info @ ''|'' @ market info @ ''|'' @ details info"

definition generate_id :: "(string \<Rightarrow> string) \<Rightarrow> bet_info \<Rightarrow> string" where
  "generate_id md5 info = md5 (unique_str info)"

section \<open>The bot's state\<close>

text \<open>
  \<open>active_superquotes\<close> and \<open>history\<close> map an identifier to a bet dictionary, and the
  code stores one and the same dictionary object under both (\<open>self.active_superquotes[bet_id] = data\<close>
  followed by \<open>self.history[bet_id] = data\<close>; at start-up the values of the loaded document).
  Later writes go through \<open>self.history[bet_id][...]\<close> and are seen through both. The
  model therefore keeps the bet dictionaries in an object table \<open>heap\<close>, addressed by
  position, and the two dictionaries hold addresses.
\<close>

record bot =
  heap :: "pydict list"
  active_superquotes :: "(string \<times> nat) list"
  history :: "(string \<times> nat) list"

text \<open>
  A container of the page, as the loop of \<open>run\<close> sees it: the count of boost markers
  inside it (the browser call may raise instead) and the result of \<open>_extract_bet_info\<close>.
\<close>

record container =
  boost_count :: "error + nat"
  extracted :: bet_info

text \<open>
  The two notifications of a cycle, with the values their messages are built from.
  \<open>_send_telegram\<close> and \<open>_update_sheet\<close> catch their own exceptions, so sending an
  event never ends a cycle; the model records the event.
\<close>

datatype event =
    Added string bet_info
  | Removed string pyval pyval pyval

section \<open>One polling cycle\<close>

text \<open>
  The body of the loop over the containers, from \<open>bet_id = self._generate_id(data)\<close> on.
  A new bet allocates its dictionary and stores it under both maps; a known one has
  the time stamp and the active flag of its history record set. \<open>self.history[bet_id]\<close>
  raises KeyError when the identifier is missing there.
\<close>

definition process_bet :: "(string \<Rightarrow> string) \<Rightarrow> bot \<Rightarrow> bet_info \<Rightarrow> error + (bot \<times> event list)" where
  "process_bet md5 s info =
     (let bet_id = generate_id md5 info;
          data = AList.update ''active'' (PBool True) (info_dict info)
      in if bet_id \<notin> set (map fst (active_superquotes s)) then
           (let a = length (heap s)
            in Inr (s\<lparr>heap := heap s @ [data],
                      active_superquotes := AList.update bet_id a (active_superquotes s),
                      history := AList.update bet_id a (history s)\<rparr>,
                    [Added bet_id info]))
         else
           (case map_of (history s) bet_id of
              None \<Rightarrow> Inl (KeyError bet_id)
            | Some a \<Rightarrow>
                Inr (s\<lparr>heap := (heap s)
                       [a := AList.update ''active'' (PBool True)
                               (AList.update ''timestamp'' (PStr (timestamp info)) (heap s ! a))]\<rparr>,
                     [])))"

text \<open>
  The loop over the containers. It carries the bot, \<open>current_cycle_ids\<close> and the events
  sent so far; an exception ends it and leaves the bot as it is at that moment.
\<close>

fun process_containers ::
  "(string \<Rightarrow> string) \<Rightarrow> container list \<Rightarrow> bot \<Rightarrow> string list \<Rightarrow> event list
     \<Rightarrow> bot \<times> string list \<times> event list \<times> error option" where
  "process_containers md5 [] s ids evs = (s, ids, evs, None)"
| "process_containers md5 (c # cs) s ids evs =
     (case boost_count c of
        Inl e \<Rightarrow> (s, ids, evs, Some e)
      | Inr n \<Rightarrow>
          if n = 0 then process_containers md5 cs s ids evs
          else if match (extracted c) = ''N/A'' \<or> odds_new (extracted c) = ''N/A''
          then process_containers md5 cs s ids evs
          else
            (case process_bet md5 s (extracted c) of
               Inl e \<Rightarrow> (s, ids @ [generate_id md5 (extracted c)], evs, Some e)
             | Inr (s', new) \<Rightarrow>
                 process_containers md5 cs s' (ids @ [generate_id md5 (extracted c)]) (evs @ new)))"

text \<open>
  The bets that left the page: the keys of \<open>active_superquotes\<close>, in the dictionary's
  order, that are not among this cycle's identifiers.
\<close>

definition removed_ids :: "bot \<Rightarrow> string list \<Rightarrow> string list" where
  "removed_ids s ids = filter (\<lambda>bid. bid \<notin> set ids) (map fst (active_superquotes s))"

text \<open>
  The loop over \<open>removed_ids\<close>: pop the bet, clear the active flag of the history
  record, then build the message from \<open>bet['match']\<close>, \<open>bet['odds_old']\<close> and
  \<open>bet['odds_new']\<close>. Each lookup raises KeyError on a missing key, after the writes
  before it have happened.
\<close>

fun remove_bets :: "bot \<Rightarrow> event list \<Rightarrow> string list \<Rightarrow> bot \<times> event list \<times> error option" where
  "remove_bets s evs [] = (s, evs, None)"
| "remove_bets s evs (bid # bids) =
     (case map_of (active_superquotes s) bid of
        None \<Rightarrow> (s, evs, Some (KeyError bid))
      | Some a \<Rightarrow>
          (let s1 = s\<lparr>active_superquotes := AList.delete bid (active_superquotes s)\<rparr>
           in case map_of (history s1) bid of
                None \<Rightarrow> (s1, evs, Some (KeyError bid))
              | Some b \<Rightarrow>
                  (let s2 = s1\<lparr>heap := (heap s1)
                               [b := AList.update ''active'' (PBool False) (heap s1 ! b)]\<rparr>;
                       bet = heap s2 ! a
                   in case map_of bet ''match'' of
                        None \<Rightarrow> (s2, evs, Some (KeyError ''match''))
                      | Some m \<Rightarrow>
                          (case map_of bet ''odds_old'' of
                             None \<Rightarrow> (s2, evs, Some (KeyError ''odds_old''))
                           | Some old \<Rightarrow>
                               (case map_of bet ''odds_new'' of
                                  None \<Rightarrow> (s2, evs, Some (KeyError ''odds_new''))
                                | Some new \<Rightarrow>
                                    remove_bets s2 (evs @ [Removed bid m old new]) bids)))))"

text \<open>
  One cycle, from the containers found on the page to the state that is saved: the new
  bot, the events in the order they were sent, and the exception that ended the cycle
  early, if any.
\<close>

definition run_cycle ::
  "(string \<Rightarrow> string) \<Rightarrow> bot \<Rightarrow> container list \<Rightarrow> bot \<times> event list \<times> error option" where
  "run_cycle md5 s cs =
     (case process_containers md5 cs s [] [] of
        (s1, ids, evs, Some e) \<Rightarrow> (s1, evs, Some e)
      | (s1, ids, evs, None) \<Rightarrow> remove_bets s1 evs (removed_ids s1 ids))"

section \<open>Loading and saving the history\<close>

text \<open>
  What \<open>_load_history\<close> finds: no file, a file that \<open>json.load\<close> rejects with
  JSONDecodeError, a file whose bytes are not UTF-8 (UnicodeDecodeError), or a decoded
  document. Decoding is library code, so the decoded value is the input.
\<close>

datatype history_file =
    No_file
  | Not_json
  | Not_utf8
  | Document pyval

datatype log = Info_loaded nat nat | Warning_corrupted

text \<open>
  The comprehension \<open>{k: v for k, v in data.items() if v.get('active') is True}\<close> calls
  \<open>v.get\<close> on every value of the document, in order; a value that is not a dictionary
  has no \<open>get\<close>. \<open>load_items\<close> places the values in the object table from address \<open>n\<close>
  on.
\<close>

fun load_items :: "(string \<times> pyval) list \<Rightarrow> nat \<Rightarrow> error + (pydict list \<times> (string \<times> nat) list)" where
  "load_items [] n = Inr ([], [])"
| "load_items ((k, PDict d) # rest) n =
     (case load_items rest (Suc n) of
        Inl e \<Rightarrow> Inl e
      | Inr (objs, refs) \<Rightarrow> Inr (d # objs, (k, n) # refs))"
| "load_items ((k, v) # rest) n = Inl AttributeError"

definition is_active :: "pydict list \<Rightarrow> nat \<Rightarrow> bool" where
  "is_active objs a = (map_of (objs ! a) ''active'' = Some (PBool True))"

text \<open>
  \<open>__init__\<close> sets \<open>active_superquotes\<close> to the empty dictionary and \<open>history\<close> to the
  result of \<open>_load_history\<close>, which also fills \<open>active_superquotes\<close> when the document
  decodes. Only JSONDecodeError is caught.
\<close>

definition load_history :: "history_file \<Rightarrow> error + (bot \<times> log list)" where
  "load_history f =
     (case f of
        No_file \<Rightarrow> Inr (\<lparr>heap = [], active_superquotes = [], history = []\<rparr>, [])
      | Not_json \<Rightarrow> Inr (\<lparr>heap = [], active_superquotes = [], history = []\<rparr>, [Warning_corrupted])
      | Not_utf8 \<Rightarrow> Inl UnicodeDecodeError
      | Document (PDict items) \<Rightarrow>
          (case load_items items 0 of
             Inl e \<Rightarrow> Inl e
           | Inr (objs, refs) \<Rightarrow>
               (let act = filter (\<lambda>(k, a). is_active objs a) refs
                in Inr (\<lparr>heap = objs, active_superquotes = act, history = refs\<rparr>,
                        [Info_loaded (length refs) (length act)])))
      | Document _ \<Rightarrow> Inl AttributeError)"

text \<open>
  The value that \<open>json.dump(self.history, ...)\<close> serialises.
\<close>

definition history_document :: "bot \<Rightarrow> pyval" where
  "history_document s = PDict (map (\<lambda>(k, a). (k, PDict (heap s ! a))) (history s))"

text \<open>
  \<open>_save_history\<close> opens the history file itself with mode \<open>w\<close>, which empties it, and
  \<open>json.dump\<close> then writes the document into it piece by piece. \<open>chunks\<close> are the pieces
  in the order they reach the file. \<open>save_history_disk old chunks k\<close> is the file when
  the process dies, or an IOError ends the save, at point \<open>k\<close>: point 0 is before \<open>open\<close>,
  point 1 right after it, point \<open>k + 1\<close> after the \<open>k\<close>-th piece. \<open>None\<close> is a file that
  does not exist.
\<close>

definition save_history_disk :: "string option \<Rightarrow> string list \<Rightarrow> nat \<Rightarrow> string option" where
  "save_history_disk old chunks k =
     (if k = 0 then old else Some (concat (take (k - 1) chunks)))"

definition save_history :: "string option \<Rightarrow> string list \<Rightarrow> string option" where
  "save_history old chunks = save_history_disk old chunks (Suc (length chunks))"

section \<open>The retry loop around the browser\<close>







section \<open>States the bot can be in\<close>

text \<open>
  A well-formed bot: every history entry points into the object table, two history
  entries never share an object, and an active bet is the very object its history
  entry holds.
\<close>

definition well_formed :: "bot \<Rightarrow> bool" where
  "well_formed s \<longleftrightarrow>
     (\<forall>k a. map_of (history s) k = Some a \<longrightarrow> a < length (heap s)) \<and>
     (\<forall>k k' a. map_of (history s) k = Some a \<longrightarrow> map_of (history s) k' = Some a \<longrightarrow> k = k') \<and>
     (\<forall>k a. map_of (active_superquotes s) k = Some a \<longrightarrow> map_of (history s) k = Some a)"

text \<open>
  The active set and the active flags of the history agree.
\<close>

definition consistent :: "bot \<Rightarrow> bool" where
  "consistent s \<longleftrightarrow>
     (\<forall>k. k \<in> set (map fst (active_superquotes s)) \<longleftrightarrow>
          (\<exists>a. map_of (history s) k = Some a \<and> is_active (heap s) a))"

definition invariant :: "bot \<Rightarrow> bool" where
  "invariant s \<longleftrightarrow> well_formed s \<and> consistent s"

text \<open>
  The keys of a Python dictionary are distinct; this is all that is asked of a decoded
  document.
\<close>

definition python_dict :: "history_file \<Rightarrow> bool" where
  "python_dict f = (case f of Document (PDict items) \<Rightarrow> distinct (map fst items) | _ \<Rightarrow> True)"

text \<open>
  The states between two cycles: the one \<open>__init__\<close> builds from the history file, and
  the one any cycle leaves behind, whether it ran to its end or was cut short by an
  exception (the handler in \<open>run\<close> keeps the bot and starts the next cycle from it).
\<close>

inductive reachable :: "(string \<Rightarrow> string) \<Rightarrow> bot \<Rightarrow> bool" for md5 where
  started: "python_dict f \<Longrightarrow> load_history f = Inr (s, logs) \<Longrightarrow> reachable md5 s"
| cycled: "reachable md5 s \<Longrightarrow> run_cycle md5 s cs = (s', evs, err) \<Longrightarrow> reachable md5 s'"

section \<open>Notions used to describe a cycle\<close>

text \<open>
  A container whose bet reaches \<open>_generate_id\<close>: it carries a boost marker and its
  extracted match and boosted odds are not \<open>N/A\<close>.
\<close>

definition accepted :: "container \<Rightarrow> bool" where
  "accepted c \<longleftrightarrow>
     (case boost_count c of Inl e \<Rightarrow> False | Inr n \<Rightarrow> n \<noteq> 0) \<and>
     match (extracted c) \<noteq> ''N/A'' \<and> odds_new (extracted c) \<noteq> ''N/A''"

text \<open>
  The value of \<open>current_cycle_ids\<close> after a loop that was not cut short, and the
  containers of a page that show the bet \<open>k\<close>.
\<close>

definition cycle_ids :: "(string \<Rightarrow> string) \<Rightarrow> container list \<Rightarrow> string list" where
  "cycle_ids md5 cs = map (\<lambda>c. generate_id md5 (extracted c)) (filter accepted cs)"

definition sightings :: "(string \<Rightarrow> string) \<Rightarrow> string \<Rightarrow> container list \<Rightarrow> container list" where
  "sightings md5 k cs = filter (\<lambda>c. accepted c \<and> generate_id md5 (extracted c) = k) cs"

fun is_added :: "event \<Rightarrow> bool" where
  "is_added (Added k info) = True"
| "is_added (Removed k m old new) = False"

fun event_id :: "event \<Rightarrow> string" where
  "event_id (Added k info) = k"
| "event_id (Removed k m old new) = k"

definition added_event :: "(string \<Rightarrow> string) \<Rightarrow> container \<Rightarrow> event" where
  "added_event md5 c = Added (generate_id md5 (extracted c)) (extracted c)"

text \<open>
  The two assignments of the \<open>else\<close> branch, \<open>['timestamp'] = t\<close> and \<open>['active'] = True\<close>,
  applied to a bet dictionary.
\<close>

definition touch :: "string \<Rightarrow> pydict \<Rightarrow> pydict" where
  "touch t d = AList.update ''active'' (PBool True) (AList.update ''timestamp'' (PStr t) d)"

text \<open>
  A stored bet from which the message of a removal can be built, a bot all of whose
  stored bets are such, and a bot whose two dictionaries have distinct keys, as Python
  dictionaries do.
\<close>

definition has_fields :: "pydict \<Rightarrow> bool" where
  "has_fields d \<longleftrightarrow>
     map_of d ''match'' \<noteq> None \<and> map_of d ''odds_old'' \<noteq> None \<and> map_of d ''odds_new'' \<noteq> None"

definition complete :: "bot \<Rightarrow> bool" where
  "complete s \<longleftrightarrow> (\<forall>d\<in>set (heap s). has_fields d)"


section \<open>Identity stability\<close>

text \<open>
  C7. Two extracted bets that agree on match, market and details get the same
  identifier, whatever their sport, odds and timestamp are: the identifier is a function
  of those three strings alone.
\<close>

theorem generate_id_stable:
  assumes "match a = match b" and "market a = market b" and "details a = details b"
  shows "generate_id md5 a = generate_id md5 b"
  using assms by (simp add: generate_id_def unique_str_def)

theorem generate_id_stable_witness:
  "generate_id id
     \<lparr>sport = ''Soccer'', details = ''Boost'', match = ''A v B'', market = ''Winner'',
      odds_old = ''1,50'', odds_new = ''1,80'', timestamp = ''t1''\<rparr>
   = generate_id id
     \<lparr>sport = ''Soccer'', details = ''Boost'', match = ''A v B'', market = ''Winner'',
      odds_old = ''1,60'', odds_new = ''2,10'', timestamp = ''t2''\<rparr>"
  using generate_id_stable [of
     "\<lparr>sport = ''Soccer'', details = ''Boost'', match = ''A v B'', market = ''Winner'',
      odds_old = ''1,50'', odds_new = ''1,80'', timestamp = ''t1''\<rparr>"
     "\<lparr>sport = ''Soccer'', details = ''Boost'', match = ''A v B'', market = ''Winner'',
      odds_old = ''1,60'', odds_new = ''2,10'', timestamp = ''t2''\<rparr>" id]
  by simp

section \<open>The active set mirrors the active flags\<close>

lemma load_items_shape:
  "load_items items n = Inr (objs, refs) \<Longrightarrow>
     map fst refs = map fst items \<and> map snd refs = [n..<n + length items] \<and> length objs = length items"
proof (induction items n arbitrary: objs refs rule: load_items.induct)
  case (2 k d rest n)
  then show ?case by (auto split: sum.splits simp del: upt_Suc simp: upt_conv_Cons)
qed auto

lemma distinct_snd_unique:
  "distinct (map snd xs) \<Longrightarrow> (k, a) \<in> set xs \<Longrightarrow> (k', a) \<in> set xs \<Longrightarrow> k = k'"
  by (metis distinct_map inj_onD prod.inject snd_conv)

lemma load_history_inv:
  assumes "python_dict f" and "load_history f = Inr (s, logs)"
  shows "well_formed s \<and> consistent s"
proof (cases f)
  case (Document v)
  show ?thesis
  proof (cases v)
    case (PDict items)
    with Document assms obtain objs refs where
      li: "load_items items 0 = Inr (objs, refs)" and
      s: "s = \<lparr>heap = objs, active_superquotes = filter (\<lambda>(k, a). is_active objs a) refs, history = refs\<rparr>"
      by (auto simp: load_history_def Let_def split: sum.splits)
    from PDict Document assms have d: "distinct (map fst items)" by (simp add: python_dict_def)
    from load_items_shape[OF li] have sh: "map fst refs = map fst items"
      "map snd refs = [0..<length items]" "length objs = length items" by auto
    have dk: "distinct (map fst refs)" using d sh by simp
    have dv: "distinct (map snd refs)" using sh by simp
    have rng: "\<And>k a. (k, a) \<in> set refs \<Longrightarrow> a < length objs"
    proof -
      fix k a assume "(k, a) \<in> set refs"
      then have "a \<in> set (map snd refs)" by force
      then show "a < length objs" using sh by simp
    qed
    have m: "\<And>k a. map_of refs k = Some a \<longleftrightarrow> (k, a) \<in> set refs"
      using dk by simp
    have "well_formed s"
      unfolding well_formed_def s using rng dv m
      by (auto dest: distinct_snd_unique map_of_SomeD)
    moreover have "consistent s"
      unfolding consistent_def s using m by force
    ultimately show ?thesis by simp
  qed (use Document assms in \<open>auto simp: load_history_def\<close>)
qed (use assms in \<open>auto simp: load_history_def well_formed_def consistent_def\<close>)


lemma is_active_update_True [simp]:
  "a < length h \<Longrightarrow> is_active (h[a := AList.update ''active'' (PBool True) d]) a"
  by (simp add: is_active_def update_conv')

lemma is_active_update_False [simp]:
  "a < length h \<Longrightarrow> \<not> is_active (h[a := AList.update ''active'' (PBool False) d]) a"
  by (simp add: is_active_def update_conv')

lemma is_active_other [simp]:
  "b \<noteq> a \<Longrightarrow> is_active (h[a := d]) b = is_active h b"
  by (simp add: is_active_def)

lemma is_active_append [simp]:
  "b < length h \<Longrightarrow> is_active (h @ [d]) b = is_active h b"
  by (simp add: is_active_def nth_append)

lemma is_active_new [simp]:
  "is_active (h @ [AList.update ''active'' (PBool True) d]) (length h)"
  by (simp add: is_active_def update_conv')

lemma process_bet_inv:
  assumes "invariant s" and "process_bet md5 s info = Inr (s', new)"
  shows "invariant s'"
proof (cases "generate_id md5 info \<in> fst ` set (active_superquotes s)")
  case False
  with assms(2) have s': "s' = s\<lparr>heap := heap s @ [AList.update ''active'' (PBool True) (info_dict info)],
        active_superquotes := AList.update (generate_id md5 info) (length (heap s)) (active_superquotes s),
        history := AList.update (generate_id md5 info) (length (heap s)) (history s)\<rparr>"
    by (auto simp: process_bet_def Let_def)
  from assms(1) have w: "well_formed s" and c: "consistent s" by (simp_all add: invariant_def)
  have "well_formed s'"
    using w unfolding well_formed_def s'
    by (auto simp: update_conv' less_Suc_eq)
  moreover have "consistent s'"
    using c w unfolding consistent_def well_formed_def s'
    by (auto simp: update_conv' dom_update)
  ultimately show ?thesis by (simp add: invariant_def)
next
  case True
  with assms(2) obtain a where a: "map_of (history s) (generate_id md5 info) = Some a"
    and s': "s' = s\<lparr>heap := (heap s)[a := AList.update ''active'' (PBool True)
                               (AList.update ''timestamp'' (PStr (timestamp info)) (heap s ! a))]\<rparr>"
    by (auto simp: process_bet_def Let_def split: option.splits)
  from assms(1) have w: "well_formed s" and c: "consistent s" by (simp_all add: invariant_def)
  have "well_formed s'"
    using w unfolding well_formed_def s' by simp
  moreover have "consistent s'"
    unfolding consistent_def
  proof (intro allI)
    fix k
    show "k \<in> set (map fst (active_superquotes s')) \<longleftrightarrow>
          (\<exists>b. map_of (history s') k = Some b \<and> is_active (heap s') b)"
    proof (cases "k = generate_id md5 info")
      case True
      then show ?thesis using \<open>generate_id md5 info \<in> fst ` set (active_superquotes s)\<close> a w
        by (auto simp: s' well_formed_def)
    next
      case False
      have "\<And>b. map_of (history s) k = Some b \<Longrightarrow> b \<noteq> a"
        using w a False unfolding well_formed_def by blast
      then show ?thesis using c unfolding consistent_def s' by auto
    qed
  qed
  ultimately show ?thesis by (simp add: invariant_def)
qed

lemma process_containers_inv:
  "invariant s \<Longrightarrow> process_containers md5 cs s ids evs = (s', ids', evs', err) \<Longrightarrow> invariant s'"
proof (induction cs arbitrary: s ids evs)
  case Nil
  then show ?case by simp
next
  case (Cons c cs)
  then show ?case
    by (auto split: sum.splits if_splits dest: process_bet_inv)
qed

lemma remove_bets_inv:
  "invariant s \<Longrightarrow> remove_bets s evs bids = (s', evs', err) \<Longrightarrow> invariant s'"
proof (induction bids arbitrary: s evs)
  case Nil
  then show ?case by simp
next
  case (Cons bid bids)
  from Cons.prems(1) have w: "well_formed s" and c: "consistent s" by (simp_all add: invariant_def)
  show ?case
  proof (cases "map_of (active_superquotes s) bid")
    case None
    with Cons.prems show ?thesis by simp
  next
    case (Some a)
    define s1 where "s1 = s\<lparr>active_superquotes := AList.delete bid (active_superquotes s)\<rparr>"
    show ?thesis
    proof (cases "map_of (history s) bid")
      case None
      have "invariant s1"
        using w c None unfolding invariant_def well_formed_def consistent_def s1_def
        by (auto simp: delete_conv' delete_keys)
      moreover from Cons.prems(2) Some None have "s' = s1" by (simp add: s1_def)
      ultimately show ?thesis by simp
    next
      case (Some b)
      define s2 where "s2 = s1\<lparr>heap := (heap s1)[b := AList.update ''active'' (PBool False) (heap s1 ! b)]\<rparr>"
      have b: "b < length (heap s)" using w Some by (auto simp: well_formed_def)
      have other: "\<And>k c. k \<noteq> bid \<Longrightarrow> map_of (history s) k = Some c \<Longrightarrow> c \<noteq> b"
        using w Some unfolding well_formed_def by blast
      have "well_formed s2"
        using w unfolding well_formed_def s2_def s1_def
        by (auto simp: delete_conv' split: if_splits)
      moreover have "consistent s2"
        unfolding consistent_def
      proof (intro allI)
        fix k
        show "k \<in> set (map fst (active_superquotes s2)) \<longleftrightarrow>
              (\<exists>c. map_of (history s2) k = Some c \<and> is_active (heap s2) c)"
        proof (cases "k = bid")
          case True
          then show ?thesis using Some b by (simp add: s2_def s1_def delete_keys)
        next
          case False
          then show ?thesis using c other[OF False]
            unfolding consistent_def s2_def s1_def by (auto simp: delete_keys)
        qed
      qed
      ultimately have i2: "invariant s2" by (simp add: invariant_def)
      from Cons.prems(2) \<open>map_of (active_superquotes s) bid = Some a\<close> Some
      have "s' = s2 \<or> (\<exists>evs2. remove_bets s2 evs2 bids = (s', evs', err))"
        by (auto simp: s1_def s2_def Let_def split: option.splits)
      then show ?thesis using i2 Cons.IH by blast
    qed
  qed
qed

lemma run_cycle_inv:
  "invariant s \<Longrightarrow> run_cycle md5 s cs = (s', evs, err) \<Longrightarrow> invariant s'"
  unfolding run_cycle_def
  by (auto split: prod.splits option.splits dest: process_containers_inv remove_bets_inv)

lemma reachable_invariant: "reachable md5 s \<Longrightarrow> invariant s"
proof (induction rule: reachable.induct)
  case (started f s logs)
  then show ?case by (simp add: invariant_def load_history_inv)
next
  case (cycled s cs s' evs err)
  then show ?case by (blast intro: run_cycle_inv)
qed

lemma reachable_empty: "reachable md5 \<lparr>heap = [], active_superquotes = [], history = []\<rparr>"
  by (rule started [of No_file _ "[]"]) (simp_all add: python_dict_def load_history_def)

lemma reachable_run_cycle: "reachable md5 s \<Longrightarrow> reachable md5 (fst (run_cycle md5 s cs))"
  by (cases "run_cycle md5 s cs") (auto intro: cycled)

lemmas cycle_eval =
  run_cycle_def process_bet_def generate_id_def unique_str_def info_dict_def removed_ids_def
  is_active_def Let_def

text \<open>
  C1. In every state between two cycles, an identifier is a key of
  \<open>active_superquotes\<close> exactly when \<open>history\<close> holds a record for it whose
  \<open>active\<close> entry is \<open>True\<close>. This covers the state built at start-up and the state
  after each cycle.
\<close>

theorem active_set_mirrors_history:
  assumes "reachable md5 s"
  shows "k \<in> set (map fst (active_superquotes s)) \<longleftrightarrow>
         (\<exists>a. map_of (history s) k = Some a \<and> map_of (heap s ! a) ''active'' = Some (PBool True))"
  using reachable_invariant [OF assms] by (simp add: invariant_def consistent_def is_active_def)

theorem active_set_mirrors_history_witness:
  "reachable id (fst (run_cycle id \<lparr>heap = [], active_superquotes = [], history = []\<rparr>
       [\<lparr>boost_count = Inr 1, extracted = \<lparr>sport = ''Soccer'', details = ''Boost'',
          match = ''A v B'', market = ''Winner'', odds_old = ''1,50'', odds_new = ''1,80'',
          timestamp = ''t1''\<rparr>\<rparr>]))
   \<and> ''A v B|Winner|Boost'' \<in> set (map fst (active_superquotes
       (fst (run_cycle id \<lparr>heap = [], active_superquotes = [], history = []\<rparr>
       [\<lparr>boost_count = Inr 1, extracted = \<lparr>sport = ''Soccer'', details = ''Boost'',
          match = ''A v B'', market = ''Winner'', odds_old = ''1,50'', odds_new = ''1,80'',
          timestamp = ''t1''\<rparr>\<rparr>]))))"
proof -
  let ?s = "fst (run_cycle id \<lparr>heap = [], active_superquotes = [], history = []\<rparr>
       [\<lparr>boost_count = Inr 1, extracted = \<lparr>sport = ''Soccer'', details = ''Boost'',
          match = ''A v B'', market = ''Winner'', odds_old = ''1,50'', odds_new = ''1,80'',
          timestamp = ''t1''\<rparr>\<rparr>])"
  have r: "reachable id ?s"
    by (rule reachable_run_cycle [OF reachable_empty])
  have "map_of (history ?s) ''A v B|Winner|Boost'' = Some 0 \<and>
        map_of (heap ?s ! 0) ''active'' = Some (PBool True)"
    by (simp add: cycle_eval)
  with active_set_mirrors_history [OF r, of "''A v B|Winner|Boost''"] r
  show ?thesis by blast
qed

section \<open>Loading a damaged history file\<close>

lemma load_history_not_json:
  "load_history Not_json =
     Inr (\<lparr>heap = [], active_superquotes = [], history = []\<rparr>, [Warning_corrupted])"
  by (simp add: load_history_def)

text \<open>
  C5. A history file that holds valid JSON which is not an object of objects, here the
  empty array, makes \<open>_load_history\<close> raise AttributeError: only JSONDecodeError is
  caught, so no warning is logged and no empty store is returned.
\<close>

theorem load_history_array_raises:
  "load_history (Document (PList [])) = Inl AttributeError"
  by (simp add: load_history_def)

section \<open>Saving the history\<close>

text \<open>
  C2, as the code has it. \<open>_save_history\<close> writes into the history file itself. When the
  process dies during the save, the file holds its previous contents if it had not been
  opened yet, and otherwise a prefix of the new document, the empty one right after
  opening; after a completed save it holds the whole new document.
\<close>

theorem save_history_in_place:
  "(save_history_disk old chunks k = old \<or>
      (\<exists>n. save_history_disk old chunks k = Some (take n (concat chunks)))) \<and>
   save_history_disk old chunks 1 = Some [] \<and>
   save_history old chunks = Some (concat chunks)"
proof -
  have "\<exists>n. concat (take j chunks) = take n (concat chunks)" for j
  proof -
    have "concat chunks = concat (take j chunks) @ concat (drop j chunks)"
      by (metis append_take_drop_id concat_append)
    then have "concat (take j chunks) = take (length (concat (take j chunks))) (concat chunks)"
      by simp
    then show ?thesis ..
  qed
  then show ?thesis
    by (auto simp: save_history_disk_def save_history_def)
qed

text \<open>
  The claim as stated fails: with a file that holds \<open>{}\<close> and a new document written in
  the two pieces \<open>{"a": \<close> and \<open>{}}\<close>, a crash right after \<open>open\<close> leaves an empty file,
  which is neither the previous nor the new contents.
\<close>

theorem save_history_not_atomic:
  \<open>save_history_disk (Some ''{}'') [''{"a": '', ''{}}''] 1 = Some [] \<and>
   save_history_disk (Some ''{}'') [''{"a": '', ''{}}''] 1 \<noteq> Some ''{}'' \<and>
   save_history_disk (Some ''{}'') [''{"a": '', ''{}}''] 1 \<noteq>
     save_history (Some ''{}'') [''{"a": '', ''{}}'']\<close>
  by (simp add: save_history_disk_def save_history_def)

section \<open>The retry loop\<close>








section \<open>Bets that are skipped\<close>

lemma process_containers_skip:
  assumes "boost_count c = Inr n"
    and "match (extracted c) = ''N/A'' \<or> odds_new (extracted c) = ''N/A''"
  shows "process_containers md5 (cs1 @ c # cs2) s ids evs = process_containers md5 (cs1 @ cs2) s ids evs"
  using assms
  by (induction cs1 arbitrary: s ids evs) (auto split: sum.splits prod.splits)

text \<open>
  C4, as the code has it. An extracted bet whose match or whose boosted odds are \<open>N/A\<close> is
  dropped before it gets an identifier: the cycle runs exactly as if its container were
  not on the page, so it causes no event and no entry in the active set or the history.
\<close>

theorem sentinel_bets_excluded:
  assumes "boost_count c = Inr n"
    and "match (extracted c) = ''N/A'' \<or> odds_new (extracted c) = ''N/A''"
  shows "run_cycle md5 s (cs1 @ c # cs2) = run_cycle md5 s (cs1 @ cs2)"
  using process_containers_skip [OF assms] by (simp add: run_cycle_def)

theorem sentinel_bets_excluded_witness:
  "run_cycle id \<lparr>heap = [], active_superquotes = [], history = []\<rparr>
     ([] @ \<lparr>boost_count = Inr 1, extracted = \<lparr>sport = ''Soccer'', details = ''Boost'',
          match = ''N/A'', market = ''Winner'', odds_old = ''1,50'', odds_new = ''1,80'',
          timestamp = ''t1''\<rparr>\<rparr> # [])
   = (\<lparr>heap = [], active_superquotes = [], history = []\<rparr>, [], None)"
  using sentinel_bets_excluded [of "\<lparr>boost_count = Inr 1, extracted = \<lparr>sport = ''Soccer'', details = ''Boost'',
          match = ''N/A'', market = ''Winner'', odds_old = ''1,50'', odds_new = ''1,80'',
          timestamp = ''t1''\<rparr>\<rparr>" 1 id "\<lparr>heap = [], active_superquotes = [], history = []\<rparr>" "[]" "[]"]
  by (simp add: cycle_eval)

text \<open>
  The claim as stated fails for the market: a bet whose market is \<open>N/A\<close>, with a match and
  boosted odds, gets an identifier, an Added event and an entry in both dictionaries.
\<close>

theorem sentinel_market_not_excluded:
  "run_cycle id \<lparr>heap = [], active_superquotes = [], history = []\<rparr>
     [\<lparr>boost_count = Inr 1, extracted = \<lparr>sport = ''Soccer'', details = ''Boost'',
          match = ''A v B'', market = ''N/A'', odds_old = ''1,50'', odds_new = ''1,80'',
          timestamp = ''t1''\<rparr>\<rparr>]
   = (\<lparr>heap = [ [(''sport'', PStr ''Soccer''), (''details'', PStr ''Boost''),
                 (''match'', PStr ''A v B''), (''market'', PStr ''N/A''),
                 (''odds_old'', PStr ''1,50''), (''odds_new'', PStr ''1,80''),
                 (''timestamp'', PStr ''t1''), (''active'', PBool True)] ],
       active_superquotes = [(''A v B|N/A|Boost'', 0)],
       history = [(''A v B|N/A|Boost'', 0)]\<rparr>,
      [Added ''A v B|N/A|Boost'' \<lparr>sport = ''Soccer'', details = ''Boost'',
          match = ''A v B'', market = ''N/A'', odds_old = ''1,50'', odds_new = ''1,80'',
          timestamp = ''t1''\<rparr>],
      None)"
  by (simp add: cycle_eval)

section \<open>What a sighting does to the stored record\<close>

text \<open>
  C3, as the code has it. Processing a bet of the current cycle never fails in a
  reachable state and leaves a history record under the bet's identifier. When the
  identifier is in the active set, the record is the one already stored, with its time
  stamp set to the new sighting's and its active flag set; every other field, the old
  and new odds among them, keeps its stored value, and no event is sent. When the
  identifier is not in the active set, whether unseen or stored as inactive, the record
  is the newly extracted bet with the active flag set, and an Added event is sent.
\<close>

theorem process_bet_record:
  assumes "reachable md5 s"
  shows "\<exists>s' evs a.
     process_bet md5 s info = Inr (s', evs) \<and>
     map_of (history s') (generate_id md5 info) = Some a \<and>
     (if generate_id md5 info \<in> set (map fst (active_superquotes s))
      then map_of (history s) (generate_id md5 info) = Some a \<and> evs = [] \<and>
           map_of (heap s' ! a) =
             (map_of (heap s ! a))(''timestamp'' \<mapsto> PStr (timestamp info), ''active'' \<mapsto> PBool True)
      else evs = [Added (generate_id md5 info) info] \<and>
           map_of (heap s' ! a) = (map_of (info_dict info))(''active'' \<mapsto> PBool True))"
proof -
  from reachable_invariant [OF assms] have w: "well_formed s" and c: "consistent s"
    by (simp_all add: invariant_def)
  show ?thesis
  proof (cases "generate_id md5 info \<in> set (map fst (active_superquotes s))")
    case True
    with c obtain a where a: "map_of (history s) (generate_id md5 info) = Some a"
      unfolding consistent_def by blast
    with w have "a < length (heap s)" by (auto simp: well_formed_def)
    with True a show ?thesis
      by (simp add: process_bet_def Let_def update_conv')
  next
    case False
    then show ?thesis
      by (simp add: process_bet_def Let_def update_conv')
  qed
qed

theorem process_bet_record_witness:
  "reachable id \<lparr>heap = [], active_superquotes = [], history = []\<rparr> \<and>
   (\<exists>s' evs a.
     process_bet id \<lparr>heap = [], active_superquotes = [], history = []\<rparr>
       \<lparr>sport = ''Soccer'', details = ''Boost'', match = ''A v B'', market = ''Winner'',
        odds_old = ''1,50'', odds_new = ''1,80'', timestamp = ''t1''\<rparr> = Inr (s', evs) \<and>
     map_of (history s') ''A v B|Winner|Boost'' = Some a \<and>
     evs = [Added ''A v B|Winner|Boost''
       \<lparr>sport = ''Soccer'', details = ''Boost'', match = ''A v B'', market = ''Winner'',
        odds_old = ''1,50'', odds_new = ''1,80'', timestamp = ''t1''\<rparr>])"
  using reachable_empty [of id] process_bet_record [OF reachable_empty, of id
       "\<lparr>sport = ''Soccer'', details = ''Boost'', match = ''A v B'', market = ''Winner'',
        odds_old = ''1,50'', odds_new = ''1,80'', timestamp = ''t1''\<rparr>"]
  by (auto simp: generate_id_def unique_str_def)

text \<open>
  The claim as stated fails for a bet that is still active: after a first sighting with
  odds 1,50 and 1,80 and a second one with odds 1,60 and 2,10, the stored record still
  holds 1,50 and 1,80; only its time stamp is the second sighting's.
\<close>

theorem known_bet_keeps_odds:
  "map_of (history (fst (run_cycle id (fst (run_cycle id \<lparr>heap = [], active_superquotes = [], history = []\<rparr>
       [\<lparr>boost_count = Inr 1, extracted = \<lparr>sport = ''Soccer'', details = ''Boost'',
          match = ''A v B'', market = ''Winner'', odds_old = ''1,50'', odds_new = ''1,80'',
          timestamp = ''t1''\<rparr>\<rparr>]))
       [\<lparr>boost_count = Inr 1, extracted = \<lparr>sport = ''Soccer'', details = ''Boost'',
          match = ''A v B'', market = ''Winner'', odds_old = ''1,60'', odds_new = ''2,10'',
          timestamp = ''t2''\<rparr>\<rparr>]))) ''A v B|Winner|Boost'' = Some 0 \<and>
   heap (fst (run_cycle id (fst (run_cycle id \<lparr>heap = [], active_superquotes = [], history = []\<rparr>
       [\<lparr>boost_count = Inr 1, extracted = \<lparr>sport = ''Soccer'', details = ''Boost'',
          match = ''A v B'', market = ''Winner'', odds_old = ''1,50'', odds_new = ''1,80'',
          timestamp = ''t1''\<rparr>\<rparr>]))
       [\<lparr>boost_count = Inr 1, extracted = \<lparr>sport = ''Soccer'', details = ''Boost'',
          match = ''A v B'', market = ''Winner'', odds_old = ''1,60'', odds_new = ''2,10'',
          timestamp = ''t2''\<rparr>\<rparr>])) ! 0 =
     [(''sport'', PStr ''Soccer''), (''details'', PStr ''Boost''),
      (''match'', PStr ''A v B''), (''market'', PStr ''Winner''),
      (''odds_old'', PStr ''1,50''), (''odds_new'', PStr ''1,80''),
      (''timestamp'', PStr ''t2''), (''active'', PBool True)]"
  by (simp add: cycle_eval)

section \<open>The events of a cycle\<close>

lemma process_bet_events:
  "process_bet md5 s info = Inr (s', new) \<Longrightarrow>
     new = (if generate_id md5 info \<in> set (map fst (active_superquotes s)) then []
            else [Added (generate_id md5 info) info]) \<and>
     map fst (active_superquotes s') =
       (if generate_id md5 info \<in> set (map fst (active_superquotes s)) then map fst (active_superquotes s)
        else map fst (active_superquotes s) @ [generate_id md5 info])"
  by (auto simp: process_bet_def Let_def update_keys split: option.splits if_splits)

lemma accepted_boost_count: "accepted c \<Longrightarrow> \<exists>n. boost_count c = Inr n"
  by (auto simp: accepted_def split: sum.splits)

lemma is_added_added_event [simp]: "is_added (added_event md5 c)"
  by (simp add: added_event_def)

lemma event_id_added_event [simp]: "event_id (added_event md5 c) = generate_id md5 (extracted c)"
  by (simp add: added_event_def)

lemma process_containers_skip_unaccepted:
  "boost_count c = Inr n \<Longrightarrow> \<not> accepted c \<Longrightarrow>
     process_containers md5 (c # cs) s ids evs = process_containers md5 cs s ids evs"
  by (cases "n = 0") (auto simp: accepted_def)

lemma process_containers_accepted:
  "accepted c \<Longrightarrow>
     process_containers md5 (c # cs) s ids evs =
       (case process_bet md5 s (extracted c) of
          Inl e \<Rightarrow> (s, ids @ [generate_id md5 (extracted c)], evs, Some e)
        | Inr (s', new) \<Rightarrow>
            process_containers md5 cs s' (ids @ [generate_id md5 (extracted c)]) (evs @ new))"
  by (cases "boost_count c") (auto simp: accepted_def)

lemma process_containers_cases [consumes 1, case_names Nil Raise Skip Bet_raise Bet]:
  assumes "process_containers md5 cs s ids evs = (s1, ids1, evs1, err)"
    and "\<And>s ids evs. P [] s ids evs s ids evs None"
    and "\<And>c cs s ids evs e. boost_count c = Inl e \<Longrightarrow> P (c # cs) s ids evs s ids evs (Some e)"
    and "\<And>c cs s ids evs s1 ids1 evs1 err.
           \<not> accepted c \<Longrightarrow> \<exists>n. boost_count c = Inr n \<Longrightarrow>
           process_containers md5 cs s ids evs = (s1, ids1, evs1, err) \<Longrightarrow>
           P cs s ids evs s1 ids1 evs1 err \<Longrightarrow> P (c # cs) s ids evs s1 ids1 evs1 err"
    and "\<And>c cs s ids evs e.
           accepted c \<Longrightarrow> process_bet md5 s (extracted c) = Inl e \<Longrightarrow>
           P (c # cs) s ids evs s (ids @ [generate_id md5 (extracted c)]) evs (Some e)"
    and "\<And>c cs s ids evs s' new s1 ids1 evs1 err.
           accepted c \<Longrightarrow> process_bet md5 s (extracted c) = Inr (s', new) \<Longrightarrow>
           process_containers md5 cs s' (ids @ [generate_id md5 (extracted c)]) (evs @ new)
             = (s1, ids1, evs1, err) \<Longrightarrow>
           P cs s' (ids @ [generate_id md5 (extracted c)]) (evs @ new) s1 ids1 evs1 err \<Longrightarrow>
           P (c # cs) s ids evs s1 ids1 evs1 err"
  shows "P cs s ids evs s1 ids1 evs1 err"
  using assms(1)
proof (induction cs arbitrary: s ids evs)
  case Nil
  then show ?case using assms(2) by simp
next
  case (Cons c cs)
  show ?case
  proof (cases "boost_count c")
    case (Inl e)
    with Cons.prems assms(3) [OF Inl] show ?thesis by simp
  next
    case (Inr n)
    show ?thesis
    proof (cases "accepted c")
      case False
      from Cons.prems have "process_containers md5 cs s ids evs = (s1, ids1, evs1, err)"
        unfolding process_containers_skip_unaccepted [OF Inr False] .
      with False Inr assms(4) Cons.IH show ?thesis by blast
    next
      case True
      show ?thesis
      proof (cases "process_bet md5 s (extracted c)")
        case (Inl e)
        from Cons.prems
        have "(s, ids @ [generate_id md5 (extracted c)], evs, Some e) = (s1, ids1, evs1, err)"
          unfolding process_containers_accepted [OF True] Inl by simp
        with assms(5) [OF True Inl] show ?thesis by auto
      next
        case bet: (Inr r)
        obtain s' new where r: "r = (s', new)" by (cases r)
        from Cons.prems have
          "process_containers md5 cs s' (ids @ [generate_id md5 (extracted c)]) (evs @ new)
             = (s1, ids1, evs1, err)"
          unfolding process_containers_accepted [OF True] bet r by simp
        with True bet r assms(6) Cons.IH show ?thesis by blast
      qed
    qed
  qed
qed

lemma process_containers_ids:
  "process_containers md5 cs s ids evs = (s1, ids1, evs1, err) \<Longrightarrow> err = None \<Longrightarrow>
     ids1 = ids @ cycle_ids md5 cs \<and> (\<forall>c\<in>set cs. \<exists>n. boost_count c = Inr n)"
  by (induction rule: process_containers_cases) (auto simp: cycle_ids_def dest: accepted_boost_count)

lemma process_containers_events:
  "process_containers md5 cs s ids evs = (s1, ids1, evs1, err) \<Longrightarrow>
     \<exists>new. evs1 = evs @ new \<and> (\<forall>e\<in>set new. is_added e) \<and>
           subseq new (map (added_event md5) cs)"
proof (induction rule: process_containers_cases)
  case (Skip c cs s ids evs s1 ids1 evs1 err)
  then show ?case by (auto intro: subseq_Cons')
next
  case (Bet c cs s ids evs s' new s1 ids1 evs1 err)
  then obtain new' where
    n: "evs1 = (evs @ new) @ new'" "\<forall>e\<in>set new'. is_added e" "subseq new' (map (added_event md5) cs)"
    by blast
  from process_bet_events [OF Bet(2)] have "new = [] \<or> new = [added_event md5 c]"
    by (auto simp: added_event_def)
  then show ?case
  proof
    assume "new = []"
    with n show ?thesis by (auto intro: subseq_Cons')
  next
    assume "new = [added_event md5 c]"
    with n show ?thesis
      by (intro exI [of _ "added_event md5 c # new'"]) auto
  qed
qed auto

lemma process_containers_keys:
  "process_containers md5 cs s ids evs = (s1, ids1, evs1, err) \<Longrightarrow>
     \<exists>new. map fst (active_superquotes s1) = map fst (active_superquotes s) @ new \<and>
           set new \<subseteq> set ids1 \<and> set ids \<subseteq> set ids1"
proof (induction rule: process_containers_cases)
  case (Bet c cs s ids evs s' new s1 ids1 evs1 err)
  then obtain new' where
    n: "map fst (active_superquotes s1) = map fst (active_superquotes s') @ new'"
       "set new' \<subseteq> set ids1" "set (ids @ [generate_id md5 (extracted c)]) \<subseteq> set ids1"
    by blast
  from process_bet_events [OF Bet(2)] n show ?case by (auto split: if_splits)
qed auto

lemma remove_bets_events:
  "remove_bets s evs bids = (s', evs', None) \<Longrightarrow>
     \<exists>gone. evs' = evs @ gone \<and> (\<forall>e\<in>set gone. \<not> is_added e) \<and> map event_id gone = bids"
proof (induction bids arbitrary: s evs)
  case Nil
  then show ?case by simp
next
  case (Cons bid bids)
  from Cons.prems obtain s2 m old new where
    "remove_bets s2 (evs @ [Removed bid m old new]) bids = (s', evs', None)"
    by (auto simp: Let_def split: option.splits)
  from Cons.IH [OF this] show ?case by auto
qed


text \<open>
  C8, as the code has it. The events of a cycle that ran to its end are its Added events
  followed by its Removed events. The Added events appear in the order of their
  containers on the page. The Removed events appear in the order the removed bets have
  as keys of \<open>active_superquotes\<close> at the start of the cycle, which is the order in which
  they entered that dictionary.
\<close>

theorem cycle_event_order:
  assumes "run_cycle md5 s cs = (s', evs, None)"
  shows "evs = filter is_added evs @ filter (\<lambda>e. \<not> is_added e) evs \<and>
         subseq (filter is_added evs) (map (added_event md5) cs) \<and>
         map event_id (filter (\<lambda>e. \<not> is_added e) evs) =
           filter (\<lambda>k. k \<notin> set (cycle_ids md5 cs)) (map fst (active_superquotes s))"
proof -
  from assms obtain s1 ids1 evs1 where
    pc: "process_containers md5 cs s [] [] = (s1, ids1, evs1, None)" and
    rb: "remove_bets s1 evs1 (removed_ids s1 ids1) = (s', evs, None)"
    by (auto simp: run_cycle_def split: prod.splits option.splits)
  from process_containers_ids [OF pc refl] have ids1: "ids1 = cycle_ids md5 cs" by simp
  from process_containers_events [OF pc] obtain new where
    new: "evs1 = new" "\<forall>e\<in>set new. is_added e" "subseq new (map (added_event md5) cs)" by auto
  from process_containers_keys [OF pc] obtain nk where
    nk: "map fst (active_superquotes s1) = map fst (active_superquotes s) @ nk" "set nk \<subseteq> set ids1"
    by blast
  from remove_bets_events [OF rb] obtain gone where
    gone: "evs = evs1 @ gone" "\<forall>e\<in>set gone. \<not> is_added e" "map event_id gone = removed_ids s1 ids1"
    by blast
  have f1: "filter is_added evs = new" using new gone by (simp add: filter_id_conv filter_empty_conv)
  have f2: "filter (\<lambda>e. \<not> is_added e) evs = gone" using new gone by (simp add: filter_id_conv filter_empty_conv)
  have "removed_ids s1 ids1 = filter (\<lambda>k. k \<notin> set ids1) (map fst (active_superquotes s))"
    using nk by (auto simp: removed_ids_def filter_empty_conv)
  with f1 f2 new gone ids1 show ?thesis by simp
qed

theorem cycle_event_order_witness:
  "run_cycle id
     \<lparr>heap = [ [(''sport'', PStr ''S''), (''details'', PStr ''D''), (''match'', PStr ''A''),
          (''market'', PStr ''W''), (''odds_old'', PStr ''1''), (''odds_new'', PStr ''2''),
          (''timestamp'', PStr ''t1''), (''active'', PBool True)] ],
       active_superquotes = [(''A|W|D'', 0)], history = [(''A|W|D'', 0)]\<rparr>
     [\<lparr>boost_count = Inr 1, extracted = \<lparr>sport = ''S'', details = ''D'', match = ''C'',
            market = ''W'', odds_old = ''1'', odds_new = ''2'', timestamp = ''t2''\<rparr>\<rparr>]
   = (\<lparr>heap = [ [(''sport'', PStr ''S''), (''details'', PStr ''D''), (''match'', PStr ''A''),
          (''market'', PStr ''W''), (''odds_old'', PStr ''1''), (''odds_new'', PStr ''2''),
          (''timestamp'', PStr ''t1''), (''active'', PBool False)],
         [(''sport'', PStr ''S''), (''details'', PStr ''D''), (''match'', PStr ''C''),
          (''market'', PStr ''W''), (''odds_old'', PStr ''1''), (''odds_new'', PStr ''2''),
          (''timestamp'', PStr ''t2''), (''active'', PBool True)] ],
       active_superquotes = [(''C|W|D'', 1)], history = [(''A|W|D'', 0), (''C|W|D'', 1)]\<rparr>,
      [Added ''C|W|D'' \<lparr>sport = ''S'', details = ''D'', match = ''C'', market = ''W'',
          odds_old = ''1'', odds_new = ''2'', timestamp = ''t2''\<rparr>,
       Removed ''A|W|D'' (PStr ''A'') (PStr ''1'') (PStr ''2'')], None) \<and>
   map event_id (filter (\<lambda>e. \<not> is_added e)
      [Added ''C|W|D'' \<lparr>sport = ''S'', details = ''D'', match = ''C'', market = ''W'',
          odds_old = ''1'', odds_new = ''2'', timestamp = ''t2''\<rparr>,
       Removed ''A|W|D'' (PStr ''A'') (PStr ''1'') (PStr ''2'')]) = [''A|W|D'']"
proof -
  have r: "run_cycle id
     \<lparr>heap = [ [(''sport'', PStr ''S''), (''details'', PStr ''D''), (''match'', PStr ''A''),
          (''market'', PStr ''W''), (''odds_old'', PStr ''1''), (''odds_new'', PStr ''2''),
          (''timestamp'', PStr ''t1''), (''active'', PBool True)] ],
       active_superquotes = [(''A|W|D'', 0)], history = [(''A|W|D'', 0)]\<rparr>
     [\<lparr>boost_count = Inr 1, extracted = \<lparr>sport = ''S'', details = ''D'', match = ''C'',
            market = ''W'', odds_old = ''1'', odds_new = ''2'', timestamp = ''t2''\<rparr>\<rparr>]
   = (\<lparr>heap = [ [(''sport'', PStr ''S''), (''details'', PStr ''D''), (''match'', PStr ''A''),
          (''market'', PStr ''W''), (''odds_old'', PStr ''1''), (''odds_new'', PStr ''2''),
          (''timestamp'', PStr ''t1''), (''active'', PBool False)],
         [(''sport'', PStr ''S''), (''details'', PStr ''D''), (''match'', PStr ''C''),
          (''market'', PStr ''W''), (''odds_old'', PStr ''1''), (''odds_new'', PStr ''2''),
          (''timestamp'', PStr ''t2''), (''active'', PBool True)] ],
       active_superquotes = [(''C|W|D'', 1)], history = [(''A|W|D'', 0), (''C|W|D'', 1)]\<rparr>,
      [Added ''C|W|D'' \<lparr>sport = ''S'', details = ''D'', match = ''C'', market = ''W'',
          odds_old = ''1'', odds_new = ''2'', timestamp = ''t2''\<rparr>,
       Removed ''A|W|D'' (PStr ''A'') (PStr ''1'') (PStr ''2'')], None)"
    by (simp add: cycle_eval)
  from cycle_event_order [OF r] r show ?thesis by simp
qed

text \<open>
  The claim as stated fails for the Removed events: their order is not fixed by the
  order in which the items were returned. The bot sees A and B, then B alone, then B and
  A, then an empty page. Without a restart the last cycle reports B before A; when the
  history is saved and loaded again before the last cycle, it reports A before B.
\<close>

theorem removed_order_depends_on_restart:
  "map event_id (fst (snd (run_cycle id
     (fst (run_cycle id (fst (run_cycle id (fst (run_cycle id
        \<lparr>heap = [], active_superquotes = [], history = []\<rparr>
        [\<lparr>boost_count = Inr 1, extracted = \<lparr>sport = ''S'', details = ''D'', match = ''A'',
            market = ''W'', odds_old = ''1'', odds_new = ''2'', timestamp = ''t1''\<rparr>\<rparr>,
         \<lparr>boost_count = Inr 1, extracted = \<lparr>sport = ''S'', details = ''D'', match = ''B'',
            market = ''W'', odds_old = ''1'', odds_new = ''2'', timestamp = ''t1''\<rparr>\<rparr>]))
        [\<lparr>boost_count = Inr 1, extracted = \<lparr>sport = ''S'', details = ''D'', match = ''B'',
            market = ''W'', odds_old = ''1'', odds_new = ''2'', timestamp = ''t2''\<rparr>\<rparr>]))
        [\<lparr>boost_count = Inr 1, extracted = \<lparr>sport = ''S'', details = ''D'', match = ''B'',
            market = ''W'', odds_old = ''1'', odds_new = ''2'', timestamp = ''t3''\<rparr>\<rparr>,
         \<lparr>boost_count = Inr 1, extracted = \<lparr>sport = ''S'', details = ''D'', match = ''A'',
            market = ''W'', odds_old = ''1'', odds_new = ''2'', timestamp = ''t3''\<rparr>\<rparr>]))
     []))) = [''B|W|D'', ''A|W|D''] \<and>
   map event_id (fst (snd (run_cycle id
     (fst (projr (load_history (Document (history_document
     (fst (run_cycle id (fst (run_cycle id (fst (run_cycle id
        \<lparr>heap = [], active_superquotes = [], history = []\<rparr>
        [\<lparr>boost_count = Inr 1, extracted = \<lparr>sport = ''S'', details = ''D'', match = ''A'',
            market = ''W'', odds_old = ''1'', odds_new = ''2'', timestamp = ''t1''\<rparr>\<rparr>,
         \<lparr>boost_count = Inr 1, extracted = \<lparr>sport = ''S'', details = ''D'', match = ''B'',
            market = ''W'', odds_old = ''1'', odds_new = ''2'', timestamp = ''t1''\<rparr>\<rparr>]))
        [\<lparr>boost_count = Inr 1, extracted = \<lparr>sport = ''S'', details = ''D'', match = ''B'',
            market = ''W'', odds_old = ''1'', odds_new = ''2'', timestamp = ''t2''\<rparr>\<rparr>]))
        [\<lparr>boost_count = Inr 1, extracted = \<lparr>sport = ''S'', details = ''D'', match = ''B'',
            market = ''W'', odds_old = ''1'', odds_new = ''2'', timestamp = ''t3''\<rparr>\<rparr>,
         \<lparr>boost_count = Inr 1, extracted = \<lparr>sport = ''S'', details = ''D'', match = ''A'',
            market = ''W'', odds_old = ''1'', odds_new = ''2'', timestamp = ''t3''\<rparr>\<rparr>])))))))
     []))) = [''A|W|D'', ''B|W|D'']"
  by (simp add: cycle_eval load_history_def history_document_def)

section \<open>Following a bet through a cycle\<close>

lemma update_commute:
  "k \<noteq> k' \<Longrightarrow> k \<in> fst ` set al \<Longrightarrow>
     AList.update k v (AList.update k' v' al) = AList.update k' v' (AList.update k v al)"
  by (induction al) auto

lemma touch_touch [simp]: "touch t (touch t' d) = touch t d"
proof -
  have "AList.update ''timestamp'' (PStr t) (AList.update ''active'' (PBool True) (AList.update ''timestamp'' (PStr t') d))
      = AList.update ''active'' (PBool True) (AList.update ''timestamp'' (PStr t) (AList.update ''timestamp'' (PStr t') d))"
    by (rule update_commute) (simp_all add: dom_update)
  then show ?thesis by (simp add: touch_def)
qed

lemma touch_info_dict:
  "AList.update ''active'' (PBool True) (info_dict i) = touch (timestamp i) (info_dict i)"
  by (simp add: touch_def info_dict_def)

lemma process_bet_known:
  assumes "generate_id md5 info \<in> set (map fst (active_superquotes s))"
    and "map_of (history s) (generate_id md5 info) = Some a"
  shows "process_bet md5 s info = Inr (s\<lparr>heap := (heap s)[a := touch (timestamp info) (heap s ! a)]\<rparr>, [])"
  using assms by (simp add: process_bet_def touch_def)

lemma process_bet_new:
  assumes "generate_id md5 info \<notin> set (map fst (active_superquotes s))"
  shows "process_bet md5 s info =
     Inr (s\<lparr>heap := heap s @ [touch (timestamp info) (info_dict info)],
            active_superquotes := AList.update (generate_id md5 info) (length (heap s)) (active_superquotes s),
            history := AList.update (generate_id md5 info) (length (heap s)) (history s)\<rparr>,
          [Added (generate_id md5 info) info])"
  using assms by (simp add: process_bet_def Let_def touch_info_dict)

lemma process_bet_Inr_cases:
  assumes "process_bet md5 s info = Inr (s', new)"
  obtains (known) a where "generate_id md5 info \<in> set (map fst (active_superquotes s))"
      "map_of (history s) (generate_id md5 info) = Some a"
      "s' = s\<lparr>heap := (heap s)[a := touch (timestamp info) (heap s ! a)]\<rparr>" "new = []"
    | (fresh) "generate_id md5 info \<notin> set (map fst (active_superquotes s))"
      "s' = s\<lparr>heap := heap s @ [touch (timestamp info) (info_dict info)],
            active_superquotes := AList.update (generate_id md5 info) (length (heap s)) (active_superquotes s),
            history := AList.update (generate_id md5 info) (length (heap s)) (history s)\<rparr>"
      "new = [Added (generate_id md5 info) info]"
proof (cases "generate_id md5 info \<in> set (map fst (active_superquotes s))")
  case True
  with assms obtain a where a: "map_of (history s) (generate_id md5 info) = Some a"
    by (auto simp: process_bet_def split: option.splits)
  from process_bet_known [OF True a] assms known [OF True a] show ?thesis by simp
next
  case False
  from process_bet_new [OF False] assms fresh [OF False] show ?thesis by simp
qed

lemma process_containers_append:
  "process_containers md5 (cs @ cs') s ids evs =
     (case process_containers md5 cs s ids evs of
        (s1, ids1, evs1, None) \<Rightarrow> process_containers md5 cs' s1 ids1 evs1
      | (s1, ids1, evs1, Some e) \<Rightarrow> (s1, ids1, evs1, Some e))"
  by (induction cs arbitrary: s ids evs) (auto split: sum.splits prod.splits)

lemma sightings_Cons:
  "sightings md5 k (c # cs) =
     (if accepted c \<and> generate_id md5 (extracted c) = k then c # sightings md5 k cs
      else sightings md5 k cs)"
  by (simp add: sightings_def)

lemma cycle_ids_Nil [simp]: "cycle_ids md5 [] = []"
  by (simp add: cycle_ids_def)


lemma sightings_empty_iff: "sightings md5 k cs = [] \<longleftrightarrow> k \<notin> set (cycle_ids md5 cs)"
  by (auto simp: sightings_def cycle_ids_def filter_empty_conv)

lemma process_containers_new_events:
  "process_containers md5 cs s ids evs = (s1, ids1, evs1, err) \<Longrightarrow>
     \<exists>new. evs1 = evs @ new \<and>
       (\<forall>e\<in>set new. is_added e \<and> event_id e \<in> set (cycle_ids md5 cs) \<and>
                      event_id e \<notin> set (map fst (active_superquotes s)))"
proof (induction rule: process_containers_cases)
  case (Skip c cs s ids evs s1 ids1 evs1 err)
  then show ?case by (auto simp: cycle_ids_def)
next
  case (Bet c cs s ids evs s' new s1 ids1 evs1 err)
  then obtain new' where n: "evs1 = (evs @ new) @ new'"
    "\<forall>e\<in>set new'. is_added e \<and> event_id e \<in> set (cycle_ids md5 cs) \<and>
        event_id e \<notin> set (map fst (active_superquotes s'))" by blast
  from Bet(2) show ?case
  proof (cases rule: process_bet_Inr_cases)
    case (known a)
    with n Bet(1) show ?thesis by (auto simp: cycle_ids_def)
  next
    case fresh
    with n Bet(1) show ?thesis
      by (intro exI [of _ "new @ new'"]) (auto simp: cycle_ids_def dom_update)
  qed
qed auto

lemma process_containers_grow:
  "process_containers md5 cs s ids evs = (s1, ids1, evs1, err) \<Longrightarrow>
     set (map fst (active_superquotes s)) \<subseteq> set (map fst (active_superquotes s1)) \<and>
     set (map fst (active_superquotes s1)) \<subseteq> set (map fst (active_superquotes s)) \<union> set (cycle_ids md5 cs) \<and>
     set (map fst (history s)) \<subseteq> set (map fst (history s1)) \<and>
     (err = None \<longrightarrow> (\<forall>k\<in>set (cycle_ids md5 cs).
        k \<in> set (map fst (active_superquotes s1)) \<and> k \<in> set (map fst (history s1))))"
proof (induction rule: process_containers_cases)
  case (Skip c cs s ids evs s1 ids1 evs1 err)
  then show ?case by (auto simp: cycle_ids_def)
next
  case (Bet c cs s ids evs s' new s1 ids1 evs1 err)
  from Bet(2) show ?case
  proof (cases rule: process_bet_Inr_cases)
    case (known a)
    from known(2) have "generate_id md5 (extracted c) \<in> fst ` set (history s)"
      by (metis domI dom_map_of_conv_image_fst)
    with known Bet(1,4) show ?thesis by (auto simp: cycle_ids_def)
  next
    case fresh
    with Bet(1,4) show ?thesis
      by (auto simp: cycle_ids_def dom_update)
  qed
qed (auto simp: cycle_ids_def)

lemma invariant_in_range: "invariant s \<Longrightarrow> map_of (history s) k = Some a \<Longrightarrow> a < length (heap s)"
  by (auto simp: invariant_def well_formed_def)

lemma invariant_unshared:
  "invariant s \<Longrightarrow> map_of (history s) k = Some a \<Longrightarrow> map_of (history s) k' = Some a \<Longrightarrow> k = k'"
  unfolding invariant_def well_formed_def by blast

lemma known_tracking:
  "process_containers md5 cs s ids evs = (s1, ids1, evs1, err) \<Longrightarrow> err = None \<Longrightarrow>
   invariant s \<Longrightarrow> k \<in> set (map fst (active_superquotes s)) \<Longrightarrow> map_of (history s) k = Some a \<Longrightarrow>
     map_of (history s1) k = Some a \<and>
     heap s1 ! a = (if sightings md5 k cs = [] then heap s ! a
                    else touch (timestamp (extracted (last (sightings md5 k cs)))) (heap s ! a))"
proof (induction rule: process_containers_cases)
  case (Nil s ids evs)
  then show ?case by (simp add: sightings_def)
next
  case (Skip c cs s ids evs s1 ids1 evs1 err)
  then show ?case by (simp add: sightings_Cons)
next
  case (Bet c cs s ids evs s' new s1 ids1 evs1 err)
  have inv': "invariant s'" using Bet.prems(2) Bet.hyps(2) by (rule process_bet_inv)
  have a: "a < length (heap s)" using Bet.prems(2,4) by (rule invariant_in_range)
  from Bet.hyps(2) show ?case
  proof (cases rule: process_bet_Inr_cases)
    case (known a')
    have act: "k \<in> set (map fst (active_superquotes s'))" and h: "map_of (history s') k = Some a"
      using known Bet.prems by simp_all
    note IH = Bet.IH [OF Bet.prems(1) inv' act h]
    show ?thesis
    proof (cases "generate_id md5 (extracted c) = k")
      case True
      with known Bet.prems have "a' = a" by simp
      with known a have obj: "heap s' ! a = touch (timestamp (extracted c)) (heap s ! a)" by simp
      from True Bet.hyps(1) have sc: "sightings md5 k (c # cs) = c # sightings md5 k cs"
        by (simp add: sightings_Cons)
      show ?thesis using IH obj unfolding sc by simp
    next
      case False
      with known Bet.prems have "a' \<noteq> a" using invariant_unshared by blast
      with known have obj: "heap s' ! a = heap s ! a" by simp
      from False have sc: "sightings md5 k (c # cs) = sightings md5 k cs"
        by (simp add: sightings_Cons)
      show ?thesis using IH obj unfolding sc by simp
    qed
  next
    case fresh
    with Bet.prems have ne: "generate_id md5 (extracted c) \<noteq> k" by auto
    have act: "k \<in> set (map fst (active_superquotes s'))" and h: "map_of (history s') k = Some a"
      using fresh Bet.prems ne by (simp_all add: dom_update update_conv')
    note IH = Bet.IH [OF Bet.prems(1) inv' act h]
    from fresh a have obj: "heap s' ! a = heap s ! a" by (simp add: nth_append)
    from ne have sc: "sightings md5 k (c # cs) = sightings md5 k cs"
      by (simp add: sightings_Cons)
    show ?thesis using IH obj unfolding sc by simp
  qed
qed simp_all




lemma remove_bets_induct [consumes 1, case_names Nil Step]:
  assumes "remove_bets s evs bids = (s', evs', None)"
    and "P [] s' evs'"
    and "\<And>bid bids s evs a b m old new.
           map_of (active_superquotes s) bid = Some a \<Longrightarrow> map_of (history s) bid = Some b \<Longrightarrow>
           remove_bets (s\<lparr>active_superquotes := AList.delete bid (active_superquotes s),
                          heap := (heap s)[b := AList.update ''active'' (PBool False) (heap s ! b)]\<rparr>)
             (evs @ [Removed bid m old new]) bids = (s', evs', None) \<Longrightarrow>
           P bids (s\<lparr>active_superquotes := AList.delete bid (active_superquotes s),
                       heap := (heap s)[b := AList.update ''active'' (PBool False) (heap s ! b)]\<rparr>)
             (evs @ [Removed bid m old new]) \<Longrightarrow>
           P (bid # bids) s evs"
  shows "P bids s evs"
  using assms(1)
proof (induction bids arbitrary: s evs)
  case Nil
  with assms(2) show ?case by simp
next
  case (Cons bid bids)
  from Cons.prems obtain a b m old new where
    "map_of (active_superquotes s) bid = Some a" "map_of (history s) bid = Some b"
    "remove_bets (s\<lparr>active_superquotes := AList.delete bid (active_superquotes s),
                          heap := (heap s)[b := AList.update ''active'' (PBool False) (heap s ! b)]\<rparr>)
             (evs @ [Removed bid m old new]) bids = (s', evs', None)"
    by (auto simp: Let_def split: option.splits)
  with assms(3) Cons.IH show ?case by blast
qed

lemma remove_one_inv:
  assumes "invariant s" and "map_of (active_superquotes s) bid = Some a"
    and "map_of (history s) bid = Some b"
  shows "invariant (s\<lparr>active_superquotes := AList.delete bid (active_superquotes s),
                       heap := (heap s)[b := AList.update ''active'' (PBool False) (heap s ! b)]\<rparr>)"
proof -
  have "\<exists>evs' err. remove_bets s [] [bid] =
      (s\<lparr>active_superquotes := AList.delete bid (active_superquotes s),
         heap := (heap s)[b := AList.update ''active'' (PBool False) (heap s ! b)]\<rparr>, evs', err)"
    using assms(2,3) by (simp add: Let_def split: option.splits)
  with assms(1) remove_bets_inv show ?thesis by blast
qed

lemma remove_bets_active:
  "remove_bets s evs bids = (s', evs', None) \<Longrightarrow>
     active_superquotes s' = filter (\<lambda>(k, a). k \<notin> set bids) (active_superquotes s) \<and>
     history s' = history s \<and> length (heap s') = length (heap s)"
proof (induction rule: remove_bets_induct)
  case Nil
  show ?case by simp
next
  case (Step bid bids s evs a b m old new)
  then show ?case by (auto simp: AList.delete_eq intro: filter_cong)
qed

lemma remove_bets_frame:
  "remove_bets s evs bids = (s', evs', None) \<Longrightarrow> invariant s \<Longrightarrow> k \<notin> set bids \<Longrightarrow>
   map_of (history s) k = Some a \<Longrightarrow> heap s' ! a = heap s ! a"
proof (induction rule: remove_bets_induct)
  case Nil
  show ?case by simp
next
  case (Step bid bids s evs c b m old new)
  note inv2 = remove_one_inv [OF Step.prems(1) Step.hyps(1,2)]
  from Step.prems Step.hyps(2) have "b \<noteq> a" using invariant_unshared by fastforce
  with Step.IH [OF inv2] Step.prems
  show ?case by simp
qed


section \<open>Running the same page twice\<close>



lemma has_fields_touch [simp]: "has_fields d \<Longrightarrow> has_fields (touch t d)"
  by (simp add: has_fields_def touch_def update_conv')

lemma has_fields_info_dict [simp]: "has_fields (info_dict i)"
  by (simp add: has_fields_def info_dict_def)

lemma has_fields_inactive [simp]:
  "has_fields d \<Longrightarrow> has_fields (AList.update ''active'' v d)"
  by (simp add: has_fields_def update_conv')

lemma complete_update:
  "complete s \<Longrightarrow> has_fields d \<Longrightarrow> complete (s\<lparr>heap := (heap s)[a := d]\<rparr>)"
  by (auto simp: complete_def dest: set_update_subset_insert [THEN subsetD])













section \<open>The same bet twice on one page\<close>

lemma last_sighting_touch:
  "(if sightings md5 k post = [] then touch (timestamp (extracted c)) X
    else touch (timestamp (extracted (last (sightings md5 k post)))) (touch (timestamp (extracted c)) X))
   = touch (timestamp (extracted (last (c # sightings md5 k post)))) X"
  by simp


text \<open>
  C10, as the code has it. Let \<open>c\<close> be the first container of a page that shows the bet
  \<open>k\<close>, in a cycle that runs to its end from a reachable state. When \<open>k\<close> is not in the
  active set at the start of the cycle, the cycle sends exactly one Added event for \<open>k\<close>,
  built from \<open>c\<close>, and the record stored for \<open>k\<close> afterwards is the bet extracted from
  \<open>c\<close> with the time stamp of the last container that shows \<open>k\<close> and the active flag
  set. When \<open>k\<close> is already in the active set, the cycle sends no Added event for it, and
  the stored record is the old one with that time stamp and the active flag set. In
  both cases the later containers change nothing but the time stamp and the active flag.
\<close>

theorem duplicates_in_one_cycle:
  assumes "reachable md5 s"
    and "run_cycle md5 s (pre @ c # post) = (s', evs, None)"
    and "accepted c"
    and "generate_id md5 (extracted c) = k"
    and "k \<notin> set (cycle_ids md5 pre)"
  shows "\<exists>a. map_of (history s') k = Some a \<and> map_of (active_superquotes s') k = Some a \<and>
     (if k \<in> set (map fst (active_superquotes s))
      then filter (\<lambda>e. is_added e \<and> event_id e = k) evs = [] \<and>
           map_of (history s) k = Some a \<and>
           heap s' ! a = touch (timestamp (extracted (last (c # sightings md5 k post)))) (heap s ! a)
      else filter (\<lambda>e. is_added e \<and> event_id e = k) evs = [Added k (extracted c)] \<and>
           heap s' ! a = touch (timestamp (extracted (last (c # sightings md5 k post))))
                           (info_dict (extracted c)))"
proof -
  from assms(2) obtain sa ids evsa where
    pc: "process_containers md5 (pre @ c # post) s [] [] = (sa, ids, evsa, None)" and
    rb: "remove_bets sa evsa (removed_ids sa ids) = (s', evs, None)"
    by (auto simp: run_cycle_def split: prod.splits option.splits)
  obtain sp idsp evsp errp where pre: "process_containers md5 pre s [] [] = (sp, idsp, evsp, errp)"
    by (metis prod_cases4)
  with pc have errp: "errp = None" and
    rest: "process_containers md5 (c # post) sp idsp evsp = (sa, ids, evsa, None)"
    unfolding process_containers_append
    by (cases errp; simp del: process_containers.simps)+
  from rest obtain sc new where
    bet: "process_bet md5 sp (extracted c) = Inr (sc, new)" and
    post: "process_containers md5 post sc (idsp @ [k]) (evsp @ new) = (sa, ids, evsa, None)"
    unfolding process_containers_accepted [OF assms(3)] assms(4)
    by (auto split: sum.splits)
  have inv0: "invariant s" using assms(1) by (rule reachable_invariant)
  have invp: "invariant sp" using inv0 pre by (rule process_containers_inv)
  have invc: "invariant sc" using invp bet by (rule process_bet_inv)
  have inva: "invariant sa" using invc post by (rule process_containers_inv)
  have inv': "invariant s'" using inv0 assms(2) by (rule run_cycle_inv)
  \<comment> \<open>the identifiers of the cycle\<close>
  from process_containers_ids [OF pc refl] have ids: "ids = cycle_ids md5 (pre @ c # post)" by simp
  have kin: "k \<in> set ids" using assms(3,4) by (auto simp: ids cycle_ids_def)
  \<comment> \<open>events\<close>
  from process_containers_new_events [OF pre] obtain newp where
    newp: "evsp = newp" "\<forall>e\<in>set newp. event_id e \<in> set (cycle_ids md5 pre)" by auto
  from process_containers_new_events [OF post] obtain newq where
    newq: "evsa = (evsp @ new) @ newq"
      "\<forall>e\<in>set newq. event_id e \<notin> set (map fst (active_superquotes sc))" by blast
  from remove_bets_events [OF rb] obtain gone where
    gone: "evs = evsa @ gone" "\<forall>e\<in>set gone. \<not> is_added e" by blast
  from process_containers_grow [OF pre] assms(5) have
    same: "k \<in> set (map fst (active_superquotes sp)) \<longleftrightarrow> k \<in> set (map fst (active_superquotes s))"
    by auto
  \<comment> \<open>the bet stays in the active set\<close>
  have actc: "k \<in> set (map fst (active_superquotes sc))"
    using bet assms(4) by (cases rule: process_bet_Inr_cases) (auto simp: dom_update)
  with process_containers_grow [OF post] have "k \<in> set (map fst (active_superquotes sa))" by auto
  with remove_bets_active [OF rb] kin have "k \<in> set (map fst (active_superquotes s'))"
    by (force simp: removed_ids_def)
  then obtain a' where a': "map_of (active_superquotes s') k = Some a'"
    by (metis domD dom_map_of_conv_image_fst list.set_map)
  with inv' have ha': "map_of (history s') k = Some a'"
    by (simp add: invariant_def well_formed_def)
  have hist': "history s' = history sa" using remove_bets_active [OF rb] by simp
  have nogone: "filter (\<lambda>e. is_added e \<and> event_id e = k) gone = []"
    using gone(2) by (simp add: filter_empty_conv)
  have nop: "filter (\<lambda>e. is_added e \<and> event_id e = k) newp = []"
    using newp(2) assms(5) by (auto simp: filter_empty_conv)
  have noq: "filter (\<lambda>e. is_added e \<and> event_id e = k) newq = []"
    using newq(2) actc by (auto simp: filter_empty_conv)
  have evs: "filter (\<lambda>e. is_added e \<and> event_id e = k) evs = filter (\<lambda>e. is_added e \<and> event_id e = k) new"
    using gone(1) newq(1) newp(1) nogone nop noq by simp
  have frame: "heap s' ! a = heap sa ! a" if "map_of (history sa) k = Some a" for a
    using rb inva _ that by (rule remove_bets_frame) (use kin in \<open>simp add: removed_ids_def\<close>)
  from bet show ?thesis
  proof (cases rule: process_bet_Inr_cases)
    case (known a)
    with assms(4) same have act: "k \<in> set (map fst (active_superquotes s))" by simp
    then obtain a0 where a0: "map_of (history s) k = Some a0"
      using inv0 unfolding invariant_def consistent_def by blast
    from known_tracking [OF pre errp inv0 act a0] assms(5) known(2) assms(4)
    have "a = a0" and objp: "heap sp ! a0 = heap s ! a0"
      by (simp_all add: sightings_empty_iff)
    have "a0 < length (heap sp)" using invp known(2) \<open>a = a0\<close> by (auto intro: invariant_in_range)
    with known \<open>a = a0\<close> have objc: "heap sc ! a0 = touch (timestamp (extracted c)) (heap s ! a0)"
      and hc: "map_of (history sc) k = Some a0" using objp assms(4) by simp_all
    from known_tracking [OF post refl invc actc hc] objc
    have ha: "map_of (history sa) k = Some a0"
      and obja: "heap sa ! a0 = touch (timestamp (extracted (last (c # sightings md5 k post)))) (heap s ! a0)"
      by (simp_all add: last_sighting_touch)
    from ha hist' ha' have "a' = a0" by simp
    with a' ha' act a0 evs known(4) frame [OF ha] obja show ?thesis by simp
  next
    case fresh
    with assms(4) same have act: "k \<notin> set (map fst (active_superquotes s))" by simp
    let ?a = "length (heap sp)"
    from fresh assms(4) have hc: "map_of (history sc) k = Some ?a"
      and objc: "heap sc ! ?a = touch (timestamp (extracted c)) (info_dict (extracted c))"
      by (simp_all add: update_conv')
    from known_tracking [OF post refl invc actc hc] objc
    have ha: "map_of (history sa) k = Some ?a"
      and obja: "heap sa ! ?a = touch (timestamp (extracted (last (c # sightings md5 k post))))
                                  (info_dict (extracted c))"
      by (simp_all add: last_sighting_touch)
    from ha hist' ha' have "a' = ?a" by simp
    with a' ha' act evs fresh(3) assms(4) frame [OF ha] obja show ?thesis by simp
  qed
qed

theorem duplicates_in_one_cycle_witness:
  "run_cycle id \<lparr>heap = [], active_superquotes = [], history = []\<rparr>
     ([] @ \<lparr>boost_count = Inr 1, extracted = \<lparr>sport = ''S'', details = ''D'', match = ''A'',
            market = ''W'', odds_old = ''1'', odds_new = ''2'', timestamp = ''t1''\<rparr>\<rparr> #
      [\<lparr>boost_count = Inr 1, extracted = \<lparr>sport = ''S'', details = ''D'', match = ''A'',
            market = ''W'', odds_old = ''3'', odds_new = ''4'', timestamp = ''t2''\<rparr>\<rparr>])
    = (\<lparr>heap = [ [(''sport'', PStr ''S''), (''details'', PStr ''D''), (''match'', PStr ''A''),
          (''market'', PStr ''W''), (''odds_old'', PStr ''1''), (''odds_new'', PStr ''2''),
          (''timestamp'', PStr ''t2''), (''active'', PBool True)] ],
       active_superquotes = [(''A|W|D'', 0)], history = [(''A|W|D'', 0)]\<rparr>,
       [Added ''A|W|D'' \<lparr>sport = ''S'', details = ''D'', match = ''A'', market = ''W'',
          odds_old = ''1'', odds_new = ''2'', timestamp = ''t1''\<rparr>], None) \<and>
   filter (\<lambda>e. is_added e \<and> event_id e = ''A|W|D'')
     [Added ''A|W|D'' \<lparr>sport = ''S'', details = ''D'', match = ''A'', market = ''W'',
          odds_old = ''1'', odds_new = ''2'', timestamp = ''t1''\<rparr>]
   = [Added ''A|W|D'' \<lparr>sport = ''S'', details = ''D'', match = ''A'', market = ''W'',
          odds_old = ''1'', odds_new = ''2'', timestamp = ''t1''\<rparr>] \<and>
   heap \<lparr>heap = [ [(''sport'', PStr ''S''), (''details'', PStr ''D''), (''match'', PStr ''A''),
          (''market'', PStr ''W''), (''odds_old'', PStr ''1''), (''odds_new'', PStr ''2''),
          (''timestamp'', PStr ''t2''), (''active'', PBool True)] ],
       active_superquotes = [(''A|W|D'', 0)], history = [(''A|W|D'', 0)]\<rparr> ! 0 =
     touch ''t2'' (info_dict \<lparr>sport = ''S'', details = ''D'', match = ''A'', market = ''W'',
          odds_old = ''1'', odds_new = ''2'', timestamp = ''t1''\<rparr>)"
proof -
  have r: "run_cycle id \<lparr>heap = [], active_superquotes = [], history = []\<rparr>
     ([] @ \<lparr>boost_count = Inr 1, extracted = \<lparr>sport = ''S'', details = ''D'', match = ''A'',
            market = ''W'', odds_old = ''1'', odds_new = ''2'', timestamp = ''t1''\<rparr>\<rparr> #
      [\<lparr>boost_count = Inr 1, extracted = \<lparr>sport = ''S'', details = ''D'', match = ''A'',
            market = ''W'', odds_old = ''3'', odds_new = ''4'', timestamp = ''t2''\<rparr>\<rparr>])
    = (\<lparr>heap = [ [(''sport'', PStr ''S''), (''details'', PStr ''D''), (''match'', PStr ''A''),
          (''market'', PStr ''W''), (''odds_old'', PStr ''1''), (''odds_new'', PStr ''2''),
          (''timestamp'', PStr ''t2''), (''active'', PBool True)] ],
       active_superquotes = [(''A|W|D'', 0)], history = [(''A|W|D'', 0)]\<rparr>,
       [Added ''A|W|D'' \<lparr>sport = ''S'', details = ''D'', match = ''A'', market = ''W'',
          odds_old = ''1'', odds_new = ''2'', timestamp = ''t1''\<rparr>], None)"
    by (simp add: cycle_eval)
  have a: "accepted \<lparr>boost_count = Inr 1, extracted = \<lparr>sport = ''S'', details = ''D'', match = ''A'',
            market = ''W'', odds_old = ''1'', odds_new = ''2'', timestamp = ''t1''\<rparr>\<rparr>"
    by (simp add: accepted_def)
  have k: "generate_id id (extracted \<lparr>boost_count = Inr 1, extracted = \<lparr>sport = ''S'', details = ''D'', match = ''A'',
            market = ''W'', odds_old = ''1'', odds_new = ''2'', timestamp = ''t1''\<rparr>\<rparr>) = ''A|W|D''"
    by (simp add: generate_id_def unique_str_def)
  have p: "''A|W|D'' \<notin> set (cycle_ids id [])" by simp
  from duplicates_in_one_cycle [OF reachable_empty r a k p] r
  show ?thesis by (simp add: sightings_def accepted_def generate_id_def unique_str_def)
qed

text \<open>
  The claim as stated fails for a bet that is already active: after a cycle that saw the
  bet once, a page that shows it twice produces no Added event.
\<close>

theorem active_duplicates_send_nothing:
  "fst (snd (run_cycle id
     \<lparr>heap = [ [(''sport'', PStr ''S''), (''details'', PStr ''D''), (''match'', PStr ''A''),
          (''market'', PStr ''W''), (''odds_old'', PStr ''1''), (''odds_new'', PStr ''2''),
          (''timestamp'', PStr ''t1''), (''active'', PBool True)] ],
       active_superquotes = [(''A|W|D'', 0)], history = [(''A|W|D'', 0)]\<rparr>
     [\<lparr>boost_count = Inr 1, extracted = \<lparr>sport = ''S'', details = ''D'', match = ''A'',
            market = ''W'', odds_old = ''3'', odds_new = ''4'', timestamp = ''t2''\<rparr>\<rparr>,
      \<lparr>boost_count = Inr 1, extracted = \<lparr>sport = ''S'', details = ''D'', match = ''A'',
            market = ''W'', odds_old = ''5'', odds_new = ''6'', timestamp = ''t3''\<rparr>\<rparr>])) = []"
  by (simp add: cycle_eval)

end
